theory Spec2Isabelle
  imports Main
begin

section \<open>Web client: de-duplicating the event list before rendering\<close>

text \<open>
  The session page keeps the events received over the socket in an array and, before
  grouping them for display, runs one pass that de-duplicates \<open>tool_call\<close> events by
  \<open>callId\<close>, \<open>execution_complete\<close> events by \<open>messageId\<close> and \<open>token\<close> events by
  \<open>messageId\<close> (the \<open>groupedEvents\<close> memo of the session page).  The pass reads three
  fields of an event: \<open>type\<close>, \<open>callId\<close> and \<open>messageId\<close>; the remaining fields are
  carried along untouched.  The declaration of the \<open>SandboxEvent\<close> interface
  (\<open>lib/tool-formatters\<close>) is missing from the sources at hand: the record below has the
  three fields the pass reads and, standing for the rest of the payload, three further
  fields that the session page reads from an event.  An optional field that is
  \<open>undefined\<close> is \<open>None\<close>.
\<close>

record SandboxEvent =
  type :: string
  callId :: "string option"
  messageId :: "string option"
  tool :: "string option"
  content :: "string option"
  status :: "string option"

text \<open>
  JavaScript truthiness of an optional string, as in \<open>event.type === "tool_call" && event.callId\<close>:
  \<open>undefined\<close> and the empty string are falsy, every other string is truthy.
\<close>

definition truthy :: "string option \<Rightarrow> bool" where
  "truthy s = (case s of None \<Rightarrow> False | Some v \<Rightarrow> v \<noteq> [])"

text \<open>
  The local variables of the pass.  \<open>filteredEvents\<close> may hold \<open>null\<close> entries (\<open>None\<close>),
  which the final \<open>filter(Boolean)\<close> removes.
\<close>

record dedup_state =
  filteredEvents :: "SandboxEvent option list"
  seenToolCalls :: "string \<rightharpoonup> nat"
  seenCompletions :: "string set"
  seenTokens :: "string \<rightharpoonup> nat"

definition initial_state :: dedup_state where
  "initial_state =
     \<lparr>filteredEvents = [], seenToolCalls = Map.empty, seenCompletions = {}, seenTokens = Map.empty\<rparr>"

text \<open>
  \<open>a[i] = v\<close> on a JavaScript array: inside the array it overwrites, past the end it extends
  the array, leaving holes (which \<open>filter\<close> skips, like \<open>null\<close>).
\<close>

definition array_set :: "'a option list \<Rightarrow> nat \<Rightarrow> 'a option \<Rightarrow> 'a option list" where
  "array_set xs i v =
     (if i < length xs then xs[i := v] else xs @ replicate (i - length xs) None @ [v])"

text \<open>The body of the \<open>for (const event of events)\<close> loop.\<close>

definition dedup_step :: "dedup_state \<Rightarrow> SandboxEvent \<Rightarrow> dedup_state" where
  "dedup_step st event =
     (if type event = ''tool_call'' \<and> truthy (callId event) then
        (case seenToolCalls st (the (callId event)) of
           Some existingIdx \<Rightarrow>
             st\<lparr>filteredEvents := array_set (filteredEvents st) existingIdx (Some event)\<rparr>
         | None \<Rightarrow>
             st\<lparr>seenToolCalls := (seenToolCalls st)(the (callId event) \<mapsto> length (filteredEvents st)),
                filteredEvents := filteredEvents st @ [Some event]\<rparr>)
      else if type event = ''execution_complete'' \<and> truthy (messageId event) then
        (if the (messageId event) \<notin> seenCompletions st then
           st\<lparr>seenCompletions := insert (the (messageId event)) (seenCompletions st),
              filteredEvents := filteredEvents st @ [Some event]\<rparr>
         else st)
      else if type event = ''token'' \<and> truthy (messageId event) then
        (let cleared =
               (case seenTokens st (the (messageId event)) of
                  Some existingIdx \<Rightarrow> array_set (filteredEvents st) existingIdx None
                | None \<Rightarrow> filteredEvents st)
         in st\<lparr>seenTokens := (seenTokens st)(the (messageId event) \<mapsto> length cleared),
               filteredEvents := cleared @ [Some event]\<rparr>)
      else st\<lparr>filteredEvents := filteredEvents st @ [Some event]\<rparr>)"

fun dedup_loop :: "dedup_state \<Rightarrow> SandboxEvent list \<Rightarrow> dedup_state" where
  "dedup_loop st [] = st"
| "dedup_loop st (event # events) = dedup_loop (dedup_step st event) events"

text \<open>\<open>filteredEvents.filter(Boolean)\<close>: drop the \<open>null\<close> entries, keep the order.\<close>

primrec filter_Boolean :: "'a option list \<Rightarrow> 'a list" where
  "filter_Boolean [] = []"
| "filter_Boolean (x # xs) = (case x of None \<Rightarrow> filter_Boolean xs | Some e \<Rightarrow> e # filter_Boolean xs)"

text \<open>The de-duplicated list that is handed to \<open>groupEvents\<close>.\<close>

definition dedupedEvents :: "SandboxEvent list \<Rightarrow> SandboxEvent list" where
  "dedupedEvents events = filter_Boolean (filteredEvents (dedup_loop initial_state events))"

text \<open>The events the pass treats as one tool call, and as the token batch of one message.\<close>

definition is_tool_call :: "string \<Rightarrow> SandboxEvent \<Rightarrow> bool" where
  "is_tool_call c e = (type e = ''tool_call'' \<and> callId e = Some c)"

definition is_token :: "string \<Rightarrow> SandboxEvent \<Rightarrow> bool" where
  "is_token m e = (type e = ''token'' \<and> messageId e = Some m)"

subsection \<open>Bookkeeping invariant of the pass\<close>

text \<open>
  The two index maps of the pass each point at the slot of \<open>filteredEvents\<close> that holds
  the event of a key.  \<open>slot_inv P seen xs\<close> says that \<open>seen\<close> and the slots of \<open>xs\<close>
  holding a \<open>P\<close>-event agree: a recorded index is in range and holds an event of its key,
  and a slot holding an event of a key is the recorded one.
\<close>

definition slot_inv ::
  "(string \<Rightarrow> SandboxEvent \<Rightarrow> bool) \<Rightarrow> (string \<rightharpoonup> nat) \<Rightarrow> SandboxEvent option list \<Rightarrow> bool" where
  "slot_inv P seen xs =
     ((\<forall>k i. seen k = Some i \<longrightarrow> i < length xs \<and> (\<exists>x. xs ! i = Some x \<and> P k x)) \<and>
      (\<forall>k i x. i < length xs \<and> xs ! i = Some x \<and> P k x \<longrightarrow> seen k = Some i))"

text \<open>The events that take the keyed branches of the loop body: the key is truthy.\<close>

definition keyed_tool_call :: "string \<Rightarrow> SandboxEvent \<Rightarrow> bool" where
  "keyed_tool_call c e = (c \<noteq> [] \<and> is_tool_call c e)"

definition keyed_token :: "string \<Rightarrow> SandboxEvent \<Rightarrow> bool" where
  "keyed_token m e = (m \<noteq> [] \<and> is_token m e)"

definition state_inv :: "dedup_state \<Rightarrow> bool" where
  "state_inv st =
     (slot_inv keyed_tool_call (seenToolCalls st) (filteredEvents st) \<and>
      slot_inv keyed_token (seenTokens st) (filteredEvents st))"

definition rendered :: "dedup_state \<Rightarrow> SandboxEvent list" where
  "rendered st = filter_Boolean (filteredEvents st)"

section \<open>Shared model definitions: models and reasoning effort\<close>

text \<open>
  \<open>packages/shared/src/models.ts\<close>.  Model names and reasoning efforts are strings at run
  time; \<open>MODEL_REASONING_CONFIG\<close> is a partial record from model name to configuration.
  The field \<open>default\<close> of a configuration is called \<open>default_effort\<close> here, since
  \<open>default\<close> is a constant of HOL.
\<close>

definition VALID_MODELS :: "string list" where
  "VALID_MODELS = [''claude-haiku-4-5'', ''claude-sonnet-4-5'', ''claude-opus-4-5'']"

definition DEFAULT_MODEL :: string where
  "DEFAULT_MODEL = ''claude-haiku-4-5''"

record ModelReasoningConfig =
  efforts :: "string list"
  default_effort :: "string option"

definition MODEL_REASONING_CONFIG :: "string \<rightharpoonup> ModelReasoningConfig" where
  "MODEL_REASONING_CONFIG =
     [''claude-haiku-4-5'' \<mapsto> \<lparr>efforts = [''high'', ''max''], default_effort = Some ''max''\<rparr>,
      ''claude-sonnet-4-5'' \<mapsto> \<lparr>efforts = [''high'', ''max''], default_effort = Some ''max''\<rparr>,
      ''claude-opus-4-5'' \<mapsto> \<lparr>efforts = [''high'', ''max''], default_effort = Some ''max''\<rparr>]"

definition isValidModel :: "string \<Rightarrow> bool" where
  "isValidModel model = (model \<in> set VALID_MODELS)"

definition getReasoningConfig :: "string \<Rightarrow> ModelReasoningConfig option" where
  "getReasoningConfig model = (if \<not> isValidModel model then None else MODEL_REASONING_CONFIG model)"

definition isValidReasoningEffort :: "string \<Rightarrow> string \<Rightarrow> bool" where
  "isValidReasoningEffort model effort =
     (case getReasoningConfig model of
        None \<Rightarrow> False
      | Some config \<Rightarrow> effort \<in> set (efforts config))"

text \<open>\<open>model && isValidModel(model)\<close>: an absent or empty model name is falsy.\<close>

definition getValidModelOrDefault :: "string option \<Rightarrow> string" where
  "getValidModelOrDefault model =
     (case model of
        None \<Rightarrow> DEFAULT_MODEL
      | Some m \<Rightarrow> if m \<noteq> [] \<and> isValidModel m then m else DEFAULT_MODEL)"

subsection \<open>Session creation and prompt enqueue: the stored reasoning effort\<close>

text \<open>
  The session actor's handlers (\<open>src/session/durable-object.ts\<close> of the control plane) are
  exercised by the integration tests, but the file itself is missing from the sources at
  hand; the definitions below follow the specification's description of \<open>init\<close> and
  \<open>enqueuePrompt\<close>, restricted to the columns that depend on the model and the reasoning
  effort.
\<close>

text \<open>Modelled from the spec: the error kinds the core surfaces (their declaration is
  missing), as the specification's error handling section lists them.\<close>

datatype error =
  bad_request | unauthorized | session_terminal | sandbox_unavailable | ingress_conflict | internal

text \<open>Modelled from the spec: the columns of the session row that the two handlers read or
  write here (the table's declaration is missing): status, model and reasoning effort.\<close>

record session_row =
  session_status :: string
  model :: string
  session_reasoning_effort :: "string option"

text \<open>Modelled from the spec: the columns of a message row that \<open>enqueuePrompt\<close> fills
  here (the table's declaration is missing): content, status and reasoning effort.\<close>

record message_row =
  message_content :: string
  message_status :: string
  message_reasoning_effort :: "string option"

text \<open>Modelled from the spec: the validation both handlers apply to an optional
  \<open>reasoningEffort\<close> (the handlers' source is missing): an effort that is not valid for
  the session's model is silently dropped, a valid one is kept.\<close>

definition stored_effort :: "string \<Rightarrow> string option \<Rightarrow> string option" where
  "stored_effort sessionModel reasoningEffort =
     (case reasoningEffort of
        None \<Rightarrow> None
      | Some e \<Rightarrow> if isValidReasoningEffort sessionModel e then Some e else None)"

text \<open>Modelled from the spec: \<open>init\<close> (the handler's source is missing): the model is
  validated against the closed set, falling back to the default; an invalid reasoning
  effort is dropped; the session row is created with status \<open>created\<close>.\<close>

definition init :: "string option \<Rightarrow> string option \<Rightarrow> error + session_row" where
  "init modelArg reasoningEffort =
     (let m = getValidModelOrDefault modelArg
      in Inr \<lparr>session_status = ''created'', model = m,
              session_reasoning_effort = stored_effort m reasoningEffort\<rparr>)"

text \<open>Modelled from the spec: \<open>enqueuePrompt\<close> (the handler's source is missing): rejected
  on an archived session; otherwise a message row with status \<open>pending\<close> is inserted, its
  reasoning effort validated against the session's model.\<close>

definition enqueuePrompt :: "session_row \<Rightarrow> string \<Rightarrow> string option \<Rightarrow> error + message_row" where
  "enqueuePrompt session promptContent reasoningEffort =
     (if session_status session = ''archived'' then Inl session_terminal
      else Inr \<lparr>message_content = promptContent, message_status = ''pending'',
                message_reasoning_effort = stored_effort (model session) reasoningEffort\<rparr>)"

section \<open>Token aggregator\<close>

text \<open>
  The aggregator batches streamed tokens per message.  Its class (\<open>TokenAggregator\<close> in the
  control plane's \<open>session/events.ts\<close>) is covered by unit tests, but the file itself is
  missing from the sources at hand, so the definitions of this section follow the
  specification: a buffer of
  tokens for the current message, a flush timer, and a flush callback whose invocations are
  recorded in \<open>flushed\<close> in order.  The model covers the aggregator while its callback is
  attached.
\<close>

text \<open>Modelled from the spec: the state of the \<open>TokenAggregator\<close> class (source missing).\<close>

record TokenAggregator =
  maxBufferSize :: nat
  buffer :: "string list"
  currentMessageId :: "string option"
  flushTimer :: bool
  flushed :: "(string \<times> string) list"

text \<open>Modelled from the spec: the constructor of \<open>TokenAggregator\<close> (source missing), with
  the size bound as its parameter (default 100).\<close>

definition new_aggregator :: "nat \<Rightarrow> TokenAggregator" where
  "new_aggregator maxSize =
     \<lparr>maxBufferSize = maxSize, buffer = [], currentMessageId = None, flushTimer = False,
      flushed = []\<rparr>"

text \<open>Modelled from the spec: \<open>TokenAggregator.flush\<close> (source missing): an empty flush is a
  no-op; otherwise the callback receives the joined buffer and the message id, the buffer is
  emptied and the timer cleared.\<close>

definition flush :: "TokenAggregator \<Rightarrow> TokenAggregator" where
  "flush a =
     (case currentMessageId a of
        None \<Rightarrow> a
      | Some m \<Rightarrow>
          if buffer a = [] then a
          else a\<lparr>flushed := flushed a @ [(concat (buffer a), m)], buffer := [],
                 flushTimer := False\<rparr>)"

text \<open>Modelled from the spec: \<open>TokenAggregator.add\<close> (source missing): a change of message
  id flushes the previous buffer; the token is buffered; reaching the size bound flushes,
  otherwise the flush timer is running.\<close>

definition add :: "string \<Rightarrow> string \<Rightarrow> TokenAggregator \<Rightarrow> TokenAggregator" where
  "add token messageId' a =
     (let a1 = (if currentMessageId a \<noteq> Some messageId' then flush a else a);
          a2 = a1\<lparr>currentMessageId := Some messageId', buffer := buffer a1 @ [token]\<rparr>
      in if length (buffer a2) \<ge> maxBufferSize a2 then flush a2 else a2\<lparr>flushTimer := True\<rparr>)"

text \<open>Modelled from the spec: expiry of the flush timer (source missing): a running timer
  flushes.\<close>

definition timer_expired :: "TokenAggregator \<Rightarrow> TokenAggregator" where
  "timer_expired a = (if flushTimer a then flush a else a)"

text \<open>What can happen to an aggregator, in any order.\<close>

datatype trigger = Add string string | TimerExpired | ManualFlush

fun apply_trigger :: "TokenAggregator \<Rightarrow> trigger \<Rightarrow> TokenAggregator" where
  "apply_trigger a (Add token messageId') = add token messageId' a"
| "apply_trigger a TimerExpired = timer_expired a"
| "apply_trigger a ManualFlush = flush a"

fun run_triggers :: "TokenAggregator \<Rightarrow> trigger list \<Rightarrow> TokenAggregator" where
  "run_triggers a [] = a"
| "run_triggers a (t # ts) = run_triggers (apply_trigger a t) ts"

text \<open>Per message: the text already handed to the callback, the text still buffered, and
  the text added so far.\<close>

definition flushed_for :: "string \<Rightarrow> TokenAggregator \<Rightarrow> string" where
  "flushed_for m a = concat (map fst (filter (\<lambda>c. snd c = m) (flushed a)))"

definition pending_for :: "string \<Rightarrow> TokenAggregator \<Rightarrow> string" where
  "pending_for m a = (if currentMessageId a = Some m then concat (buffer a) else [])"

fun added_for :: "string \<Rightarrow> trigger list \<Rightarrow> string" where
  "added_for m [] = []"
| "added_for m (Add token messageId' # ts) =
     (if messageId' = m then token @ added_for m ts else added_for m ts)"
| "added_for m (_ # ts) = added_for m ts"

definition agg_inv :: "TokenAggregator \<Rightarrow> bool" where
  "agg_inv a = (currentMessageId a = None \<longrightarrow> buffer a = [])"

section \<open>Proofs: the de-duplication pass\<close>

lemma filter_Boolean_append: "filter_Boolean (xs @ ys) = filter_Boolean xs @ filter_Boolean ys"
  by (induction xs) (auto split: option.splits)

lemma set_filter_Boolean: "set (filter_Boolean xs) = {x. Some x \<in> set xs}"
  by (induction xs) (auto split: option.splits)

lemma map_replace_id: "\<forall>y\<in>set ys. \<not> P y \<Longrightarrow> map (\<lambda>x. if P x then e else x) ys = ys"
  by (induction ys) auto

lemma filter_Boolean_replace:
  assumes "i < length xs" "xs ! i = Some x0" "P x0"
    and "\<forall>j y. j < length xs \<and> xs ! j = Some y \<and> P y \<longrightarrow> j = i"
  shows "filter_Boolean (xs[i := Some e]) = map (\<lambda>x. if P x then e else x) (filter_Boolean xs)"
  using assms
proof (induction xs arbitrary: i)
  case Nil
  then show ?case by simp
next
  case (Cons a xs)
  show ?case
  proof (cases i)
    case 0
    have "\<forall>y\<in>set (filter_Boolean xs). \<not> P y"
    proof
      fix y assume "y \<in> set (filter_Boolean xs)"
      then have "Some y \<in> set xs" by (simp add: set_filter_Boolean)
      then obtain k where k: "k < length xs" "xs ! k = Some y" by (auto simp: in_set_conv_nth)
      show "\<not> P y"
      proof
        assume "P y"
        with k Cons.prems(4) have "Suc k = i" by (auto simp del: One_nat_def)
        with 0 show False by simp
      qed
    qed
    then have "map (\<lambda>x. if P x then e else x) (filter_Boolean xs) = filter_Boolean xs"
      by (rule map_replace_id)
    with 0 Cons.prems show ?thesis by simp
  next
    case (Suc k)
    have a: "a = None \<or> (\<exists>y. a = Some y \<and> \<not> P y)"
    proof (cases a)
      case None then show ?thesis by simp
    next
      case (Some y)
      have "\<not> P y"
      proof
        assume "P y"
        with Some Cons.prems(4) have "0 = i" by (metis length_Cons nth_Cons_0 zero_less_Suc)
        with Suc show False by simp
      qed
      with Some show ?thesis by simp
    qed
    have u: "\<forall>j y. j < length xs \<and> xs ! j = Some y \<and> P y \<longrightarrow> j = k"
    proof (intro allI impI)
      fix j y assume "j < length xs \<and> xs ! j = Some y \<and> P y"
      then have "Suc j < length (a # xs) \<and> (a # xs) ! Suc j = Some y \<and> P y" by simp
      with Cons.prems(4) have "Suc j = i" by blast
      with Suc show "j = k" by simp
    qed
    from Cons.prems Suc have "k < length xs" "xs ! k = Some x0" by simp_all
    from Cons.IH[OF this Cons.prems(3) u]
    have "filter_Boolean (xs[k := Some e]) = map (\<lambda>x. if P x then e else x) (filter_Boolean xs)" .
    with a Suc show ?thesis by auto
  qed
qed

lemma filter_Boolean_clear:
  assumes "i < length xs" "xs ! i = Some x0" "P x0"
    and "\<forall>j y. j < length xs \<and> xs ! j = Some y \<and> P y \<longrightarrow> j = i"
  shows "filter_Boolean (xs[i := None]) = filter (\<lambda>x. \<not> P x) (filter_Boolean xs)"
  using assms
proof (induction xs arbitrary: i)
  case Nil
  then show ?case by simp
next
  case (Cons a xs)
  show ?case
  proof (cases i)
    case 0
    have "\<forall>y\<in>set (filter_Boolean xs). \<not> P y"
    proof
      fix y assume "y \<in> set (filter_Boolean xs)"
      then have "Some y \<in> set xs" by (simp add: set_filter_Boolean)
      then obtain k where k: "k < length xs" "xs ! k = Some y" by (auto simp: in_set_conv_nth)
      show "\<not> P y"
      proof
        assume "P y"
        with k Cons.prems(4) have "Suc k = i" by (auto simp del: One_nat_def)
        with 0 show False by simp
      qed
    qed
    then have "filter (\<lambda>x. \<not> P x) (filter_Boolean xs) = filter_Boolean xs"
      by simp
    with 0 Cons.prems show ?thesis by simp
  next
    case (Suc k)
    have a: "a = None \<or> (\<exists>y. a = Some y \<and> \<not> P y)"
    proof (cases a)
      case None then show ?thesis by simp
    next
      case (Some y)
      have "\<not> P y"
      proof
        assume "P y"
        with Some Cons.prems(4) have "0 = i" by (metis length_Cons nth_Cons_0 zero_less_Suc)
        with Suc show False by simp
      qed
      with Some show ?thesis by simp
    qed
    have u: "\<forall>j y. j < length xs \<and> xs ! j = Some y \<and> P y \<longrightarrow> j = k"
    proof (intro allI impI)
      fix j y assume "j < length xs \<and> xs ! j = Some y \<and> P y"
      then have "Suc j < length (a # xs) \<and> (a # xs) ! Suc j = Some y \<and> P y" by simp
      with Cons.prems(4) have "Suc j = i" by blast
      with Suc show "j = k" by simp
    qed
    from Cons.prems Suc have "k < length xs" "xs ! k = Some x0" by simp_all
    from Cons.IH[OF this Cons.prems(3) u]
    have "filter_Boolean (xs[k := None]) = filter (\<lambda>x. \<not> P x) (filter_Boolean xs)" .
    with a Suc show ?thesis by auto
  qed
qed


lemma slot_invI:
  assumes "\<And>k i. seen k = Some i \<Longrightarrow> i < length xs \<and> (\<exists>x. xs ! i = Some x \<and> P k x)"
    and "\<And>k i x. i < length xs \<Longrightarrow> xs ! i = Some x \<Longrightarrow> P k x \<Longrightarrow> seen k = Some i"
  shows "slot_inv P seen xs"
  unfolding slot_inv_def using assms by blast

lemma slot_invD1:
  "slot_inv P seen xs \<Longrightarrow> seen k = Some i \<Longrightarrow> i < length xs \<and> (\<exists>x. xs ! i = Some x \<and> P k x)"
  unfolding slot_inv_def by blast

lemma slot_invD2:
  "slot_inv P seen xs \<Longrightarrow> i < length xs \<Longrightarrow> xs ! i = Some x \<Longrightarrow> P k x \<Longrightarrow> seen k = Some i"
  unfolding slot_inv_def by blast

lemma slot_inv_empty: "slot_inv P Map.empty []"
  by (simp add: slot_inv_def)

lemma nth_snoc_cases:
  assumes "i < length (xs @ [a])"
  shows "(i < length xs \<and> (xs @ [a]) ! i = xs ! i) \<or> (i = length xs \<and> (xs @ [a]) ! i = a)"
  using assms by (cases "i < length xs") (simp_all add: nth_append)

lemma slot_inv_push_other:
  assumes inv: "slot_inv P seen xs" and other: "\<And>k. \<not> P k e"
  shows "slot_inv P seen (xs @ [Some e])"
proof (rule slot_invI)
  fix k i assume "seen k = Some i"
  from slot_invD1[OF inv this] obtain x where "i < length xs" "xs ! i = Some x" "P k x"
    by blast
  then show "i < length (xs @ [Some e]) \<and> (\<exists>x. (xs @ [Some e]) ! i = Some x \<and> P k x)"
    by (simp add: nth_append)
next
  fix k i x
  assume i: "i < length (xs @ [Some e])" and x: "(xs @ [Some e]) ! i = Some x" and p: "P k x"
  from nth_snoc_cases[OF i] show "seen k = Some i"
  proof
    assume "i < length xs \<and> (xs @ [Some e]) ! i = xs ! i"
    with x have "i < length xs" "xs ! i = Some x" by simp_all
    from slot_invD2[OF inv this p] show ?thesis .
  next
    assume "i = length xs \<and> (xs @ [Some e]) ! i = Some e"
    with x have "x = e" by simp
    with p other show ?thesis by simp
  qed
qed

lemma slot_inv_push_new:
  assumes inv: "slot_inv P seen xs" and pk: "P k e"
    and uniq: "\<And>k k' x. P k x \<Longrightarrow> P k' x \<Longrightarrow> k' = k" and fresh: "seen k = None"
  shows "slot_inv P (seen(k \<mapsto> length xs)) (xs @ [Some e])"
proof (rule slot_invI)
  fix k' i assume s: "(seen(k \<mapsto> length xs)) k' = Some i"
  show "i < length (xs @ [Some e]) \<and> (\<exists>x. (xs @ [Some e]) ! i = Some x \<and> P k' x)"
  proof (cases "k' = k")
    case True
    with s have "i = length xs" by simp
    with True pk show ?thesis by simp
  next
    case False
    with s have "seen k' = Some i" by simp
    from slot_invD1[OF inv this] obtain x where "i < length xs" "xs ! i = Some x" "P k' x"
      by blast
    then show ?thesis by (simp add: nth_append)
  qed
next
  fix k' i x
  assume i: "i < length (xs @ [Some e])" and x: "(xs @ [Some e]) ! i = Some x" and p: "P k' x"
  from nth_snoc_cases[OF i] show "(seen(k \<mapsto> length xs)) k' = Some i"
  proof
    assume "i < length xs \<and> (xs @ [Some e]) ! i = xs ! i"
    with x have *: "i < length xs" "xs ! i = Some x" by simp_all
    from slot_invD2[OF inv * p] have "seen k' = Some i" .
    with fresh have "k' \<noteq> k" by auto
    with \<open>seen k' = Some i\<close> show ?thesis by simp
  next
    assume a: "i = length xs \<and> (xs @ [Some e]) ! i = Some e"
    with x have "x = e" by simp
    with p uniq[OF pk] have "k' = k" by simp
    with a show ?thesis by simp
  qed
qed

text \<open>Overwriting the slot of key k with another event of key k.\<close>
lemma slot_inv_replace_same:
  assumes inv: "slot_inv P seen xs" and s: "seen k = Some i" and pk: "P k e"
    and uniq: "\<And>k k' x. P k x \<Longrightarrow> P k' x \<Longrightarrow> k' = k"
  shows "slot_inv P seen (xs[i := Some e])"
proof (rule slot_invI)
  from slot_invD1[OF inv s] obtain y where i: "i < length xs" and y: "xs ! i = Some y" "P k y"
    by blast
  fix k' j assume s': "seen k' = Some j"
  from slot_invD1[OF inv this] obtain x where *: "j < length xs" "xs ! j = Some x" "P k' x"
    by blast
  show "j < length (xs[i := Some e]) \<and> (\<exists>x. xs[i := Some e] ! j = Some x \<and> P k' x)"
  proof (cases "j = i")
    case True
    with * y have "x = y" by simp
    with * y uniq have "k' = k" by blast
    with * True i pk show ?thesis by simp
  next
    case False
    with * show ?thesis by simp
  qed
next
  from slot_invD1[OF inv s] have i: "i < length xs" by simp
  fix k' j x
  assume j: "j < length (xs[i := Some e])" and x: "xs[i := Some e] ! j = Some x" and p: "P k' x"
  show "seen k' = Some j"
  proof (cases "j = i")
    case True
    with x i have "x = e" by simp
    with p uniq[OF pk] have "k' = k" by simp
    with s True show ?thesis by simp
  next
    case False
    with x j have "j < length xs" "xs ! j = Some x" by simp_all
    from slot_invD2[OF inv this p] show ?thesis .
  qed
qed

text \<open>Clearing the slot of key k forgets the key.\<close>
lemma slot_inv_clear_same:
  assumes inv: "slot_inv P seen xs" and s: "seen k = Some i"
    and uniq: "\<And>k k' x. P k x \<Longrightarrow> P k' x \<Longrightarrow> k' = k"
  shows "slot_inv P (seen(k := None)) (xs[i := None])"
proof (rule slot_invI)
  from slot_invD1[OF inv s] obtain y where i: "i < length xs" and y: "xs ! i = Some y" "P k y"
    by blast
  fix k' j assume s': "(seen(k := None)) k' = Some j"
  then have kk: "k' \<noteq> k" and sj: "seen k' = Some j" by (auto split: if_splits)
  from slot_invD1[OF inv sj] obtain x where *: "j < length xs" "xs ! j = Some x" "P k' x"
    by blast
  have "j \<noteq> i"
  proof
    assume "j = i"
    with * y have "x = y" by simp
    with * y uniq have "k' = k" by blast
    with kk show False by simp
  qed
  with * show "j < length (xs[i := None]) \<and> (\<exists>x. xs[i := None] ! j = Some x \<and> P k' x)"
    by simp
next
  from slot_invD1[OF inv s] obtain y where i: "i < length xs" and y: "xs ! i = Some y" "P k y"
    by blast
  fix k' j x
  assume j: "j < length (xs[i := None])" and x: "xs[i := None] ! j = Some x" and p: "P k' x"
  have ji: "j \<noteq> i" using x i by auto
  with x j have *: "j < length xs" "xs ! j = Some x" by simp_all
  from slot_invD2[OF inv * p] have sj: "seen k' = Some j" .
  with s ji have "k' \<noteq> k" by auto
  with sj show "(seen(k := None)) k' = Some j" by simp
qed

text \<open>Overwriting or clearing a slot that holds an event outside the class.\<close>
lemma slot_inv_replace_other:
  assumes inv: "slot_inv Q seen xs" and i: "i < length xs" and y: "xs ! i = Some y"
    and noty: "\<And>k. \<not> Q k y" and nope: "\<And>k. \<not> Q k e"
  shows "slot_inv Q seen (xs[i := Some e])"
proof (rule slot_invI)
  fix k j assume "seen k = Some j"
  from slot_invD1[OF inv this] obtain x where *: "j < length xs" "xs ! j = Some x" "Q k x"
    by blast
  with y noty have "j \<noteq> i" by auto
  with * show "j < length (xs[i := Some e]) \<and> (\<exists>x. xs[i := Some e] ! j = Some x \<and> Q k x)"
    by simp
next
  fix k j x
  assume j: "j < length (xs[i := Some e])" and x: "xs[i := Some e] ! j = Some x" and p: "Q k x"
  have "j \<noteq> i" using x i p nope by auto
  with x j have "j < length xs" "xs ! j = Some x" by simp_all
  from slot_invD2[OF inv this p] show "seen k = Some j" .
qed

lemma slot_inv_clear_other:
  assumes inv: "slot_inv Q seen xs" and i: "i < length xs" and y: "xs ! i = Some y"
    and noty: "\<And>k. \<not> Q k y"
  shows "slot_inv Q seen (xs[i := None])"
proof (rule slot_invI)
  fix k j assume "seen k = Some j"
  from slot_invD1[OF inv this] obtain x where *: "j < length xs" "xs ! j = Some x" "Q k x"
    by blast
  with y noty have "j \<noteq> i" by auto
  with * show "j < length (xs[i := None]) \<and> (\<exists>x. xs[i := None] ! j = Some x \<and> Q k x)"
    by simp
next
  fix k j x
  assume j: "j < length (xs[i := None])" and x: "xs[i := None] ! j = Some x" and p: "Q k x"
  have "j \<noteq> i" using x i by auto
  with x j have "j < length xs" "xs ! j = Some x" by simp_all
  from slot_invD2[OF inv this p] show "seen k = Some j" .
qed


lemma state_inv_initial: "state_inv initial_state"
  by (simp add: state_inv_def initial_state_def slot_inv_empty)

lemma keyed_tool_call_uniq: "keyed_tool_call k x \<Longrightarrow> keyed_tool_call k' x \<Longrightarrow> k' = k"
  by (simp add: keyed_tool_call_def is_tool_call_def)

lemma keyed_token_uniq: "keyed_token k x \<Longrightarrow> keyed_token k' x \<Longrightarrow> k' = k"
  by (simp add: keyed_token_def is_token_def)

lemma tool_call_not_token: "keyed_tool_call c x \<Longrightarrow> \<not> keyed_token m x"
  by (simp add: keyed_tool_call_def keyed_token_def is_tool_call_def is_token_def)

lemma token_not_tool_call: "keyed_token m x \<Longrightarrow> \<not> keyed_tool_call c x"
  by (simp add: keyed_tool_call_def keyed_token_def is_tool_call_def is_token_def)

lemma truthy_Some: "truthy (Some v) = (v \<noteq> [])"
  by (simp add: truthy_def)

lemma truthyE: "truthy s \<Longrightarrow> \<exists>v. s = Some v \<and> v \<noteq> []"
  by (cases s) (simp_all add: truthy_def)

lemma array_set_in_range: "i < length xs \<Longrightarrow> array_set xs i v = xs[i := v]"
  by (simp add: array_set_def)

text \<open>The four branches of the loop body, one equation each.\<close>

lemma step_tool_call_seen:
  assumes "type e = ''tool_call''" "callId e = Some c" "c \<noteq> []" "seenToolCalls st c = Some i"
  shows "dedup_step st e = st\<lparr>filteredEvents := array_set (filteredEvents st) i (Some e)\<rparr>"
  using assms by (simp add: dedup_step_def truthy_Some)

lemma step_tool_call_new:
  assumes "type e = ''tool_call''" "callId e = Some c" "c \<noteq> []" "seenToolCalls st c = None"
  shows "dedup_step st e =
    st\<lparr>seenToolCalls := (seenToolCalls st)(c \<mapsto> length (filteredEvents st)),
       filteredEvents := filteredEvents st @ [Some e]\<rparr>"
  using assms by (simp add: dedup_step_def truthy_Some)

lemma step_completion:
  assumes "\<not> (type e = ''tool_call'' \<and> truthy (callId e))"
    "type e = ''execution_complete''" "truthy (messageId e)"
  shows "dedup_step st e =
    (if the (messageId e) \<notin> seenCompletions st then
       st\<lparr>seenCompletions := insert (the (messageId e)) (seenCompletions st),
          filteredEvents := filteredEvents st @ [Some e]\<rparr>
     else st)"
  using assms by (simp add: dedup_step_def)

lemma step_token_seen:
  assumes "type e = ''token''" "messageId e = Some m" "m \<noteq> []" "seenTokens st m = Some i"
  shows "dedup_step st e =
    st\<lparr>seenTokens := (seenTokens st)(m \<mapsto> length (array_set (filteredEvents st) i None)),
       filteredEvents := array_set (filteredEvents st) i None @ [Some e]\<rparr>"
  using assms by (simp add: dedup_step_def truthy_Some Let_def)

lemma step_token_new:
  assumes "type e = ''token''" "messageId e = Some m" "m \<noteq> []" "seenTokens st m = None"
  shows "dedup_step st e =
    st\<lparr>seenTokens := (seenTokens st)(m \<mapsto> length (filteredEvents st)),
       filteredEvents := filteredEvents st @ [Some e]\<rparr>"
  using assms by (simp add: dedup_step_def truthy_Some Let_def)

lemma step_other:
  assumes "\<not> (type e = ''tool_call'' \<and> truthy (callId e))"
    "\<not> (type e = ''execution_complete'' \<and> truthy (messageId e))"
    "\<not> (type e = ''token'' \<and> truthy (messageId e))"
  shows "dedup_step st e = st\<lparr>filteredEvents := filteredEvents st @ [Some e]\<rparr>"
proof -
  from assms(1) have 1: "(type e = ''tool_call'' \<and> truthy (callId e)) = False" by simp
  from assms(2) have 2: "(type e = ''execution_complete'' \<and> truthy (messageId e)) = False" by simp
  from assms(3) have 3: "(type e = ''token'' \<and> truthy (messageId e)) = False" by simp
  show ?thesis unfolding dedup_step_def 1 2 3 by simp
qed

lemma not_keyed_tool_call:
  "\<not> (type e = ''tool_call'' \<and> truthy (callId e)) \<Longrightarrow> \<not> keyed_tool_call k e"
  by (auto simp: keyed_tool_call_def is_tool_call_def truthy_Some)

lemma not_keyed_token:
  "\<not> (type e = ''token'' \<and> truthy (messageId e)) \<Longrightarrow> \<not> keyed_token k e"
  by (auto simp: keyed_token_def is_token_def truthy_Some)

lemma completion_not_keyed_token: "type e = ''execution_complete'' \<Longrightarrow> \<not> keyed_token k e"
  by (simp add: keyed_token_def is_token_def)


lemma state_inv_step:
  assumes inv: "state_inv st"
  shows "state_inv (dedup_step st e)"
proof -
  from inv have tc: "slot_inv keyed_tool_call (seenToolCalls st) (filteredEvents st)"
    and tk: "slot_inv keyed_token (seenTokens st) (filteredEvents st)"
    by (simp_all add: state_inv_def)
  show ?thesis
  proof (cases "type e = ''tool_call'' \<and> truthy (callId e)")
    case True
    then obtain c where c: "type e = ''tool_call''" "callId e = Some c" "c \<noteq> []"
      using truthyE by blast
    then have ke: "keyed_tool_call c e" by (simp add: keyed_tool_call_def is_tool_call_def)
    show ?thesis
    proof (cases "seenToolCalls st c")
      case None
      have "slot_inv keyed_tool_call ((seenToolCalls st)(c \<mapsto> length (filteredEvents st)))
              (filteredEvents st @ [Some e])"
        by (rule slot_inv_push_new[OF tc ke keyed_tool_call_uniq None])
      moreover have "slot_inv keyed_token (seenTokens st) (filteredEvents st @ [Some e])"
        by (rule slot_inv_push_other[OF tk tool_call_not_token[OF ke]])
      ultimately show ?thesis
        by (simp add: step_tool_call_new[OF c None] state_inv_def)
    next
      case (Some i)
      from slot_invD1[OF tc Some] obtain y where i: "i < length (filteredEvents st)"
        and y: "filteredEvents st ! i = Some y" "keyed_tool_call c y" by blast
      have "slot_inv keyed_tool_call (seenToolCalls st) ((filteredEvents st)[i := Some e])"
        by (rule slot_inv_replace_same[OF tc Some ke keyed_tool_call_uniq])
      moreover have "slot_inv keyed_token (seenTokens st) ((filteredEvents st)[i := Some e])"
        by (rule slot_inv_replace_other[OF tk i y(1) tool_call_not_token[OF y(2)]
              tool_call_not_token[OF ke]])
      ultimately show ?thesis
        by (simp add: step_tool_call_seen[OF c Some] state_inv_def array_set_in_range[OF i])
    qed
  next
    case notc: False
    show ?thesis
    proof (cases "type e = ''execution_complete'' \<and> truthy (messageId e)")
      case True
      have "slot_inv keyed_tool_call (seenToolCalls st) (filteredEvents st @ [Some e])"
        by (rule slot_inv_push_other[OF tc not_keyed_tool_call[OF notc]])
      moreover have "slot_inv keyed_token (seenTokens st) (filteredEvents st @ [Some e])"
        by (rule slot_inv_push_other[OF tk]) (simp add: completion_not_keyed_token True)
      ultimately show ?thesis using inv True
        by (simp add: step_completion[OF notc] state_inv_def)
    next
      case notx: False
      show ?thesis
      proof (cases "type e = ''token'' \<and> truthy (messageId e)")
        case True
        then obtain m where m: "type e = ''token''" "messageId e = Some m" "m \<noteq> []"
          using truthyE by blast
        then have ke: "keyed_token m e" by (simp add: keyed_token_def is_token_def)
        show ?thesis
        proof (cases "seenTokens st m")
          case None
          have "slot_inv keyed_token ((seenTokens st)(m \<mapsto> length (filteredEvents st)))
                  (filteredEvents st @ [Some e])"
            by (rule slot_inv_push_new[OF tk ke keyed_token_uniq None])
          moreover have "slot_inv keyed_tool_call (seenToolCalls st) (filteredEvents st @ [Some e])"
            by (rule slot_inv_push_other[OF tc token_not_tool_call[OF ke]])
          ultimately show ?thesis
            by (simp add: step_token_new[OF m None] state_inv_def)
        next
          case (Some i)
          from slot_invD1[OF tk Some] obtain y where i: "i < length (filteredEvents st)"
            and y: "filteredEvents st ! i = Some y" "keyed_token m y" by blast
          let ?cleared = "(filteredEvents st)[i := None]"
          have "slot_inv keyed_token ((seenTokens st)(m := None)) ?cleared"
            by (rule slot_inv_clear_same[OF tk Some keyed_token_uniq])
          from slot_inv_push_new[OF this ke keyed_token_uniq]
          have 1: "slot_inv keyed_token ((seenTokens st)(m \<mapsto> length ?cleared)) (?cleared @ [Some e])"
            by simp
          have "slot_inv keyed_tool_call (seenToolCalls st) ?cleared"
            by (rule slot_inv_clear_other[OF tc i y(1) token_not_tool_call[OF y(2)]])
          from slot_inv_push_other[OF this token_not_tool_call[OF ke]]
          have 2: "slot_inv keyed_tool_call (seenToolCalls st) (?cleared @ [Some e])" .
          from 1 2 show ?thesis
            by (simp add: step_token_seen[OF m Some] state_inv_def array_set_in_range[OF i])
        qed
      next
        case nott: False
        have "slot_inv keyed_tool_call (seenToolCalls st) (filteredEvents st @ [Some e])"
          by (rule slot_inv_push_other[OF tc not_keyed_tool_call[OF notc]])
        moreover have "slot_inv keyed_token (seenTokens st) (filteredEvents st @ [Some e])"
          by (rule slot_inv_push_other[OF tk not_keyed_token[OF nott]])
        ultimately show ?thesis
          by (simp add: step_other[OF notc notx nott] state_inv_def)
      qed
    qed
  qed
qed

lemma dedup_loop_snoc: "dedup_loop st (es @ [e]) = dedup_step (dedup_loop st es) e"
  by (induction es arbitrary: st) simp_all

lemma state_inv_loop: "state_inv st \<Longrightarrow> state_inv (dedup_loop st es)"
  by (induction es arbitrary: st) (simp_all add: state_inv_step)


text \<open>What one loop iteration does to the list that will be rendered.\<close>

lemma seen_tool_call_iff:
  assumes inv: "state_inv st" and c: "c \<noteq> []"
  shows "(seenToolCalls st c \<noteq> None) = (\<exists>x\<in>set (rendered st). is_tool_call c x)"
proof
  from inv have tc: "slot_inv keyed_tool_call (seenToolCalls st) (filteredEvents st)"
    by (simp add: state_inv_def)
  assume "seenToolCalls st c \<noteq> None"
  then obtain i where "seenToolCalls st c = Some i" by blast
  from slot_invD1[OF tc this] obtain x where "i < length (filteredEvents st)"
    "filteredEvents st ! i = Some x" "keyed_tool_call c x" by blast
  then have "x \<in> set (rendered st)" "is_tool_call c x"
    by (auto simp: rendered_def set_filter_Boolean keyed_tool_call_def in_set_conv_nth)
  then show "\<exists>x\<in>set (rendered st). is_tool_call c x" by blast
next
  from inv have tc: "slot_inv keyed_tool_call (seenToolCalls st) (filteredEvents st)"
    by (simp add: state_inv_def)
  assume "\<exists>x\<in>set (rendered st). is_tool_call c x"
  then obtain x where "Some x \<in> set (filteredEvents st)" "is_tool_call c x"
    by (auto simp: rendered_def set_filter_Boolean)
  then obtain i where "i < length (filteredEvents st)" "filteredEvents st ! i = Some x"
    "keyed_tool_call c x" using c by (auto simp: in_set_conv_nth keyed_tool_call_def)
  from slot_invD2[OF tc this] show "seenToolCalls st c \<noteq> None" by simp
qed

lemma seen_token_iff:
  assumes inv: "state_inv st" and m: "m \<noteq> []"
  shows "(seenTokens st m \<noteq> None) = (\<exists>x\<in>set (rendered st). is_token m x)"
proof
  from inv have tk: "slot_inv keyed_token (seenTokens st) (filteredEvents st)"
    by (simp add: state_inv_def)
  assume "seenTokens st m \<noteq> None"
  then obtain i where "seenTokens st m = Some i" by blast
  from slot_invD1[OF tk this] obtain x where "i < length (filteredEvents st)"
    "filteredEvents st ! i = Some x" "keyed_token m x" by blast
  then have "x \<in> set (rendered st)" "is_token m x"
    by (auto simp: rendered_def set_filter_Boolean keyed_token_def in_set_conv_nth)
  then show "\<exists>x\<in>set (rendered st). is_token m x" by blast
next
  from inv have tk: "slot_inv keyed_token (seenTokens st) (filteredEvents st)"
    by (simp add: state_inv_def)
  assume "\<exists>x\<in>set (rendered st). is_token m x"
  then obtain x where "Some x \<in> set (filteredEvents st)" "is_token m x"
    by (auto simp: rendered_def set_filter_Boolean)
  then obtain i where "i < length (filteredEvents st)" "filteredEvents st ! i = Some x"
    "keyed_token m x" using m by (auto simp: in_set_conv_nth keyed_token_def)
  from slot_invD2[OF tk this] show "seenTokens st m \<noteq> None" by simp
qed

lemma rendered_tool_call:
  assumes inv: "state_inv st" and e: "is_tool_call c e" and c: "c \<noteq> []"
  shows "rendered (dedup_step st e) =
    (if \<exists>x\<in>set (rendered st). is_tool_call c x
     then map (\<lambda>x. if is_tool_call c x then e else x) (rendered st)
     else rendered st @ [e])"
proof -
  from inv have tc: "slot_inv keyed_tool_call (seenToolCalls st) (filteredEvents st)"
    by (simp add: state_inv_def)
  from e have te: "type e = ''tool_call''" "callId e = Some c" by (simp_all add: is_tool_call_def)
  show ?thesis
  proof (cases "seenToolCalls st c")
    case None
    with seen_tool_call_iff[OF inv c] have "\<not> (\<exists>x\<in>set (rendered st). is_tool_call c x)" by simp
    then show ?thesis
      by (simp add: step_tool_call_new[OF te c None] rendered_def filter_Boolean_append)
  next
    case (Some i)
    with seen_tool_call_iff[OF inv c] have seen: "\<exists>x\<in>set (rendered st). is_tool_call c x" by simp
    from slot_invD1[OF tc Some] obtain y where i: "i < length (filteredEvents st)"
      and y: "filteredEvents st ! i = Some y" "keyed_tool_call c y" by blast
    have u: "\<forall>j z. j < length (filteredEvents st) \<and> filteredEvents st ! j = Some z \<and> is_tool_call c z
               \<longrightarrow> j = i"
    proof (intro allI impI)
      fix j z assume a: "j < length (filteredEvents st) \<and> filteredEvents st ! j = Some z \<and> is_tool_call c z"
      then have "keyed_tool_call c z" using c by (simp add: keyed_tool_call_def)
      with a slot_invD2[OF tc] have "seenToolCalls st c = Some j" by blast
      with Some show "j = i" by simp
    qed
    from y have "is_tool_call c y" by (simp add: keyed_tool_call_def)
    from filter_Boolean_replace[OF i y(1), of "is_tool_call c", OF this u]
    have "filter_Boolean ((filteredEvents st)[i := Some e]) =
            map (\<lambda>x. if is_tool_call c x then e else x) (filter_Boolean (filteredEvents st))" .
    with seen show ?thesis
      by (simp add: step_tool_call_seen[OF te c Some] rendered_def array_set_in_range[OF i])
  qed
qed

lemma rendered_token:
  assumes inv: "state_inv st" and e: "is_token m e" and m: "m \<noteq> []"
  shows "rendered (dedup_step st e) = filter (\<lambda>x. \<not> is_token m x) (rendered st) @ [e]"
proof -
  from inv have tk: "slot_inv keyed_token (seenTokens st) (filteredEvents st)"
    by (simp add: state_inv_def)
  from e have te: "type e = ''token''" "messageId e = Some m" by (simp_all add: is_token_def)
  show ?thesis
  proof (cases "seenTokens st m")
    case None
    with seen_token_iff[OF inv m] have "\<forall>x\<in>set (rendered st). \<not> is_token m x" by simp
    then have "filter (\<lambda>x. \<not> is_token m x) (rendered st) = rendered st" by simp
    then show ?thesis
      by (simp add: step_token_new[OF te m None] rendered_def filter_Boolean_append)
  next
    case (Some i)
    from slot_invD1[OF tk Some] obtain y where i: "i < length (filteredEvents st)"
      and y: "filteredEvents st ! i = Some y" "keyed_token m y" by blast
    have u: "\<forall>j z. j < length (filteredEvents st) \<and> filteredEvents st ! j = Some z \<and> is_token m z
               \<longrightarrow> j = i"
    proof (intro allI impI)
      fix j z assume a: "j < length (filteredEvents st) \<and> filteredEvents st ! j = Some z \<and> is_token m z"
      then have "keyed_token m z" using m by (simp add: keyed_token_def)
      with a slot_invD2[OF tk] have "seenTokens st m = Some j" by blast
      with Some show "j = i" by simp
    qed
    from y have "is_token m y" by (simp add: keyed_token_def)
    from filter_Boolean_clear[OF i y(1), of "is_token m", OF this u]
    have "filter_Boolean ((filteredEvents st)[i := None]) =
            filter (\<lambda>x. \<not> is_token m x) (filter_Boolean (filteredEvents st))" .
    then show ?thesis
      by (simp add: step_token_seen[OF te m Some] rendered_def array_set_in_range[OF i]
            filter_Boolean_append)
  qed
qed

text \<open>Every other event is appended, or (a repeated completion) dropped.\<close>
lemma rendered_unkeyed:
  assumes "\<not> (type e = ''tool_call'' \<and> truthy (callId e))"
    and "\<not> (type e = ''token'' \<and> truthy (messageId e))"
  shows "rendered (dedup_step st e) = rendered st @ [e] \<or> rendered (dedup_step st e) = rendered st"
proof (cases "type e = ''execution_complete'' \<and> truthy (messageId e)")
  case True
  then show ?thesis
    by (simp add: step_completion[OF assms(1)] rendered_def filter_Boolean_append)
next
  case False
  then show ?thesis
    by (simp add: step_other[OF assms(1) False assms(2)] rendered_def filter_Boolean_append)
qed


lemma dedupedEvents_rendered: "dedupedEvents es = rendered (dedup_loop initial_state es)"
  by (simp add: dedupedEvents_def rendered_def)

lemma state_inv_run: "state_inv (dedup_loop initial_state es)"
  by (rule state_inv_loop[OF state_inv_initial])

lemma dedupedEvents_snoc_tool_call:
  assumes "is_tool_call c e" "c \<noteq> []"
  shows "dedupedEvents (es @ [e]) =
    (if \<exists>x\<in>set (dedupedEvents es). is_tool_call c x
     then map (\<lambda>x. if is_tool_call c x then e else x) (dedupedEvents es)
     else dedupedEvents es @ [e])"
  unfolding dedupedEvents_rendered dedup_loop_snoc
  by (rule rendered_tool_call[OF state_inv_run assms])

lemma dedupedEvents_snoc_token:
  assumes "is_token m e" "m \<noteq> []"
  shows "dedupedEvents (es @ [e]) = filter (\<lambda>x. \<not> is_token m x) (dedupedEvents es) @ [e]"
  unfolding dedupedEvents_rendered dedup_loop_snoc
  by (rule rendered_token[OF state_inv_run assms])

lemma dedupedEvents_snoc_unkeyed:
  assumes "\<not> (type e = ''tool_call'' \<and> truthy (callId e))"
    and "\<not> (type e = ''token'' \<and> truthy (messageId e))"
  shows "dedupedEvents (es @ [e]) = dedupedEvents es @ [e] \<or> dedupedEvents (es @ [e]) = dedupedEvents es"
  unfolding dedupedEvents_rendered dedup_loop_snoc
  by (rule rendered_unkeyed[OF assms])

lemma filter_map_replace_other:
  assumes "\<not> P e" "\<And>x. T x \<Longrightarrow> \<not> P x"
  shows "filter P (map (\<lambda>x. if T x then e else x) ys) = filter P ys"
  using assms by (induction ys) auto

lemma filter_map_replace_same:
  assumes "P e"
  shows "filter P (map (\<lambda>x. if P x then e else x) ys) = map (\<lambda>_. e) (filter P ys)"
  using assms by (induction ys) auto

lemma filter_filter_other:
  assumes "\<And>x. P x \<Longrightarrow> Q x"
  shows "filter P (filter Q ys) = filter P ys"
  using assms by (induction ys) auto

text \<open>An event outside the class \<open>P\<close> leaves the \<open>P\<close>-events of the rendered list alone,
  provided the events it can overwrite or clear are outside \<open>P\<close> too.\<close>
lemma filter_dedupedEvents_snoc_other:
  assumes npe: "\<not> P e"
    and tc: "\<And>c x. type e = ''tool_call'' \<Longrightarrow> callId e = Some c \<Longrightarrow> is_tool_call c x \<Longrightarrow> \<not> P x"
    and tk: "\<And>m x. type e = ''token'' \<Longrightarrow> messageId e = Some m \<Longrightarrow> is_token m x \<Longrightarrow> \<not> P x"
  shows "filter P (dedupedEvents (es @ [e])) = filter P (dedupedEvents es)"
proof (cases "type e = ''tool_call'' \<and> truthy (callId e)")
  case True
  then obtain c where c: "type e = ''tool_call''" "callId e = Some c" "c \<noteq> []"
    using truthyE by blast
  then have "is_tool_call c e" by (simp add: is_tool_call_def)
  from dedupedEvents_snoc_tool_call[OF this c(3)] npe tc[OF c(1,2)]
  show ?thesis by (simp add: filter_map_replace_other)
next
  case notc: False
  show ?thesis
  proof (cases "type e = ''token'' \<and> truthy (messageId e)")
    case True
    then obtain m where m: "type e = ''token''" "messageId e = Some m" "m \<noteq> []"
      using truthyE by blast
    then have "is_token m e" by (simp add: is_token_def)
    from dedupedEvents_snoc_token[OF this m(3)]
    have "filter P (dedupedEvents (es @ [e])) =
            filter P (filter (\<lambda>x. \<not> is_token m x) (dedupedEvents es)) @ filter P [e]"
      by (simp only: filter_append)
    also have "filter P (filter (\<lambda>x. \<not> is_token m x) (dedupedEvents es)) = filter P (dedupedEvents es)"
      by (rule filter_filter_other) (use tk[OF m(1,2)] in blast)
    finally show ?thesis using npe by simp
  next
    case False
    from dedupedEvents_snoc_unkeyed[OF notc False, of es] npe
    show ?thesis by (elim disjE) simp_all
  qed
qed

lemma kept_tool_call:
  assumes c: "c \<noteq> []"
  shows "filter (is_tool_call c) (dedupedEvents es) =
    (if \<exists>x\<in>set es. is_tool_call c x then [last (filter (is_tool_call c) es)] else [])"
proof (induction es rule: rev_induct)
  case Nil
  show ?case by (simp add: dedupedEvents_def initial_state_def)
next
  case (snoc e es)
  show ?case
  proof (cases "is_tool_call c e")
    case True
    show ?thesis
    proof (cases "\<exists>x\<in>set es. is_tool_call c x")
      case seen: True
      with snoc have k: "filter (is_tool_call c) (dedupedEvents es) = [last (filter (is_tool_call c) es)]"
        by simp
      then have "\<exists>x\<in>set (dedupedEvents es). is_tool_call c x"
        by (metis filter_empty_conv list.distinct(1))
      with dedupedEvents_snoc_tool_call[OF True c, of es] k True show ?thesis
        by (simp add: filter_map_replace_same)
    next
      case unseen: False
      with snoc have k: "filter (is_tool_call c) (dedupedEvents es) = []" by simp
      then have "\<not> (\<exists>x\<in>set (dedupedEvents es). is_tool_call c x)"
        by (simp add: filter_empty_conv)
      with dedupedEvents_snoc_tool_call[OF True c, of es] k True show ?thesis
        by simp
    qed
  next
    case False
    have "filter (is_tool_call c) (dedupedEvents (es @ [e])) = filter (is_tool_call c) (dedupedEvents es)"
    proof (rule filter_dedupedEvents_snoc_other[where P = "is_tool_call c", OF False])
      fix c' x assume "type e = ''tool_call''" "callId e = Some c'" "is_tool_call c' x"
      with False show "\<not> is_tool_call c x" by (auto simp: is_tool_call_def)
    next
      fix m x assume "is_token m x"
      then show "\<not> is_tool_call c x" by (simp add: is_tool_call_def is_token_def)
    qed
    with snoc False show ?thesis by simp
  qed
qed

lemma kept_token:
  assumes m: "m \<noteq> []"
  shows "filter (is_token m) (dedupedEvents es) =
    (if \<exists>x\<in>set es. is_token m x then [last (filter (is_token m) es)] else [])"
proof (induction es rule: rev_induct)
  case Nil
  show ?case by (simp add: dedupedEvents_def initial_state_def)
next
  case (snoc e es)
  show ?case
  proof (cases "is_token m e")
    case True
    from dedupedEvents_snoc_token[OF True m, of es] True show ?thesis by simp
  next
    case False
    have "filter (is_token m) (dedupedEvents (es @ [e])) = filter (is_token m) (dedupedEvents es)"
    proof (rule filter_dedupedEvents_snoc_other[where P = "is_token m", OF False])
      fix m' x assume "type e = ''token''" "messageId e = Some m'" "is_token m' x"
      with False show "\<not> is_token m x" by (auto simp: is_token_def)
    next
      fix c x assume "is_tool_call c x"
      then show "\<not> is_token m x" by (simp add: is_tool_call_def is_token_def)
    qed
    with snoc False show ?thesis by simp
  qed
qed


lemma dedupedEvents_snoc_unidentified_tool_call:
  assumes "type e = ''tool_call''" "\<not> truthy (callId e)"
  shows "dedupedEvents (es @ [e]) = dedupedEvents es @ [e]"
proof -
  have "dedup_step st e = st\<lparr>filteredEvents := filteredEvents st @ [Some e]\<rparr>" for st
    by (rule step_other) (simp_all add: assms)
  then show ?thesis
    by (simp add: dedupedEvents_def dedup_loop_snoc filter_Boolean_append)
qed

lemma dedupedEvents_snoc_unidentified_token:
  assumes "type e = ''token''" "\<not> truthy (messageId e)"
  shows "dedupedEvents (es @ [e]) = dedupedEvents es @ [e]"
proof -
  have "dedup_step st e = st\<lparr>filteredEvents := filteredEvents st @ [Some e]\<rparr>" for st
    by (rule step_other) (simp_all add: assms)
  then show ?thesis
    by (simp add: dedupedEvents_def dedup_loop_snoc filter_Boolean_append)
qed

lemmas run_simps = dedupedEvents_def initial_state_def dedup_step_def truthy_def array_set_def
  is_tool_call_def is_token_def Let_def

subsection \<open>Tool calls are de-duplicated by call id\<close>

text \<open>
  Claim C8, as the pass implements it.  For every event list and every non-empty \<open>callId\<close>
  \<open>c\<close>, the de-duplicated list holds at most one \<open>tool_call\<close> event with that call id, and
  it is the latest one received.  When a \<open>tool_call\<close> with call id \<open>c\<close> arrives after the
  events \<open>events\<close>: if \<open>c\<close> was seen before, the new record takes the place of the earlier
  one and nothing else moves (so the record stays where the first occurrence was
  appended); if not, it is appended.  The pass does not touch its input, which keeps every
  record.  A \<open>tool_call\<close> whose call id is absent or the empty string takes no part in
  this: it is appended like any other event.
\<close>

theorem tool_call_dedup_by_callId:
  assumes "c \<noteq> []"
  shows "length (filter (is_tool_call c) (dedupedEvents events)) \<le> 1 \<and>
    filter (is_tool_call c) (dedupedEvents events) =
      (if \<exists>x\<in>set events. is_tool_call c x then [last (filter (is_tool_call c) events)] else []) \<and>
    (is_tool_call c e \<longrightarrow>
       dedupedEvents (events @ [e]) =
         (if \<exists>x\<in>set events. is_tool_call c x
          then map (\<lambda>x. if is_tool_call c x then e else x) (dedupedEvents events)
          else dedupedEvents events @ [e])) \<and>
    (type e = ''tool_call'' \<and> \<not> truthy (callId e) \<longrightarrow>
       dedupedEvents (events @ [e]) = dedupedEvents events @ [e])"
proof -
  note k = kept_tool_call[OF assms, of events]
  have seen: "(\<exists>x\<in>set (dedupedEvents events). is_tool_call c x) = (\<exists>x\<in>set events. is_tool_call c x)"
  proof -
    have "(\<exists>x\<in>set (dedupedEvents events). is_tool_call c x) =
            (filter (is_tool_call c) (dedupedEvents events) \<noteq> [])"
      by (simp add: filter_empty_conv)
    also have "\<dots> = (\<exists>x\<in>set events. is_tool_call c x)"
      by (simp only: k) simp
    finally show ?thesis .
  qed
  have 1: "length (filter (is_tool_call c) (dedupedEvents events)) \<le> 1"
    by (simp only: k) simp
  have 3: "is_tool_call c e \<longrightarrow>
       dedupedEvents (events @ [e]) =
         (if \<exists>x\<in>set events. is_tool_call c x
          then map (\<lambda>x. if is_tool_call c x then e else x) (dedupedEvents events)
          else dedupedEvents events @ [e])"
  proof
    assume "is_tool_call c e"
    from dedupedEvents_snoc_tool_call[OF this assms, of events] show
      "dedupedEvents (events @ [e]) =
         (if \<exists>x\<in>set events. is_tool_call c x
          then map (\<lambda>x. if is_tool_call c x then e else x) (dedupedEvents events)
          else dedupedEvents events @ [e])"
      by (simp only: seen)
  qed
  have 4: "type e = ''tool_call'' \<and> \<not> truthy (callId e) \<longrightarrow>
       dedupedEvents (events @ [e]) = dedupedEvents events @ [e]"
    using dedupedEvents_snoc_unidentified_tool_call by blast
  from 1 k 3 4 show ?thesis by blast
qed

text \<open>
  The theorem at work: a \<open>read_file\<close> call \<open>c1\<close> is received as running, then a token
  batch, then the same call as completed.  The completed record replaces the running one
  in front of the token batch.
\<close>

theorem tool_call_dedup_by_callId_witness:
  "''c1'' \<noteq> [] \<and>
   is_tool_call ''c1''
     \<lparr>type = ''tool_call'', callId = Some ''c1'', messageId = Some ''m1'',
      tool = Some ''read_file'', content = None, status = Some ''completed''\<rparr> \<and>
   filter (is_tool_call ''c1'')
     (dedupedEvents
       [\<lparr>type = ''tool_call'', callId = Some ''c1'', messageId = Some ''m1'',
          tool = Some ''read_file'', content = None, status = Some ''running''\<rparr>,
        \<lparr>type = ''token'', callId = None, messageId = Some ''m1'',
          tool = None, content = Some ''Hel'', status = None\<rparr>]) =
     [\<lparr>type = ''tool_call'', callId = Some ''c1'', messageId = Some ''m1'',
        tool = Some ''read_file'', content = None, status = Some ''running''\<rparr>] \<and>
   dedupedEvents
     ([\<lparr>type = ''tool_call'', callId = Some ''c1'', messageId = Some ''m1'',
         tool = Some ''read_file'', content = None, status = Some ''running''\<rparr>,
       \<lparr>type = ''token'', callId = None, messageId = Some ''m1'',
         tool = None, content = Some ''Hel'', status = None\<rparr>] @
      [\<lparr>type = ''tool_call'', callId = Some ''c1'', messageId = Some ''m1'',
         tool = Some ''read_file'', content = None, status = Some ''completed''\<rparr>]) =
     [\<lparr>type = ''tool_call'', callId = Some ''c1'', messageId = Some ''m1'',
        tool = Some ''read_file'', content = None, status = Some ''completed''\<rparr>,
      \<lparr>type = ''token'', callId = None, messageId = Some ''m1'',
        tool = None, content = Some ''Hel'', status = None\<rparr>]"
  using tool_call_dedup_by_callId[of "''c1''"
      "[\<lparr>type = ''tool_call'', callId = Some ''c1'', messageId = Some ''m1'',
          tool = Some ''read_file'', content = None, status = Some ''running''\<rparr>,
        \<lparr>type = ''token'', callId = None, messageId = Some ''m1'',
          tool = None, content = Some ''Hel'', status = None\<rparr>]"
      "\<lparr>type = ''tool_call'', callId = Some ''c1'', messageId = Some ''m1'',
        tool = Some ''read_file'', content = None, status = Some ''completed''\<rparr>"]
  by (simp add: run_simps)

text \<open>
  Claim C8 as stated, for every call id, fails at the empty call id: two \<open>tool_call\<close>
  events whose \<open>callId\<close> is the empty string are both kept, since the empty string is
  falsy and the events take the last branch of the loop body.
\<close>

theorem tool_call_dedup_counterexample:
  "dedupedEvents
     [\<lparr>type = ''tool_call'', callId = Some '''', messageId = None, tool = Some ''read_file'',
        content = None, status = Some ''running''\<rparr>,
      \<lparr>type = ''tool_call'', callId = Some '''', messageId = None, tool = Some ''read_file'',
        content = None, status = Some ''completed''\<rparr>] =
     [\<lparr>type = ''tool_call'', callId = Some '''', messageId = None, tool = Some ''read_file'',
        content = None, status = Some ''running''\<rparr>,
      \<lparr>type = ''tool_call'', callId = Some '''', messageId = None, tool = Some ''read_file'',
        content = None, status = Some ''completed''\<rparr>] \<and>
   \<not> length (filter (is_tool_call '''')
       (dedupedEvents
         [\<lparr>type = ''tool_call'', callId = Some '''', messageId = None, tool = Some ''read_file'',
            content = None, status = Some ''running''\<rparr>,
          \<lparr>type = ''tool_call'', callId = Some '''', messageId = None, tool = Some ''read_file'',
            content = None, status = Some ''completed''\<rparr>])) \<le> 1"
  by (simp add: run_simps)

subsection \<open>Token batches are de-duplicated by message id\<close>

text \<open>
  Claim C10, as the pass implements it.  For every event list and every non-empty
  \<open>messageId\<close> \<open>m\<close>, the de-duplicated list holds at most one \<open>token\<close> event of that
  message, and it is the latest one received.  When a \<open>token\<close> event of message \<open>m\<close>
  arrives after the events \<open>events\<close>, the earlier token event of \<open>m\<close> (if any) is removed
  and the new one is appended at the end, its own chronological position; the other
  events keep their order.  A \<open>token\<close> event whose message id is absent or the empty
  string takes no part in this: it is appended and removes nothing.
\<close>

theorem token_dedup_by_messageId:
  assumes "m \<noteq> []"
  shows "length (filter (is_token m) (dedupedEvents events)) \<le> 1 \<and>
    filter (is_token m) (dedupedEvents events) =
      (if \<exists>x\<in>set events. is_token m x then [last (filter (is_token m) events)] else []) \<and>
    (is_token m e \<longrightarrow>
       dedupedEvents (events @ [e]) = filter (\<lambda>x. \<not> is_token m x) (dedupedEvents events) @ [e]) \<and>
    (type e = ''token'' \<and> \<not> truthy (messageId e) \<longrightarrow>
       dedupedEvents (events @ [e]) = dedupedEvents events @ [e])"
proof -
  note k = kept_token[OF assms, of events]
  have 1: "length (filter (is_token m) (dedupedEvents events)) \<le> 1"
    by (simp only: k) simp
  have 3: "is_token m e \<longrightarrow>
       dedupedEvents (events @ [e]) = filter (\<lambda>x. \<not> is_token m x) (dedupedEvents events) @ [e]"
    using dedupedEvents_snoc_token[OF _ assms] by blast
  have 4: "type e = ''token'' \<and> \<not> truthy (messageId e) \<longrightarrow>
       dedupedEvents (events @ [e]) = dedupedEvents events @ [e]"
    using dedupedEvents_snoc_unidentified_token by blast
  from 1 k 3 4 show ?thesis by blast
qed

text \<open>
  The theorem at work: a first token batch of message \<open>m1\<close>, a tool call, then a second
  batch of \<open>m1\<close>.  Only the second batch is left, after the tool call.
\<close>

theorem token_dedup_by_messageId_witness:
  "''m1'' \<noteq> [] \<and>
   is_token ''m1''
     \<lparr>type = ''token'', callId = None, messageId = Some ''m1'',
      tool = None, content = Some ''Hello world'', status = None\<rparr> \<and>
   filter (is_token ''m1'')
     (dedupedEvents
       [\<lparr>type = ''token'', callId = None, messageId = Some ''m1'',
          tool = None, content = Some ''Hel'', status = None\<rparr>,
        \<lparr>type = ''tool_call'', callId = Some ''c1'', messageId = Some ''m1'',
          tool = Some ''read_file'', content = None, status = Some ''running''\<rparr>]) =
     [\<lparr>type = ''token'', callId = None, messageId = Some ''m1'',
        tool = None, content = Some ''Hel'', status = None\<rparr>] \<and>
   dedupedEvents
     ([\<lparr>type = ''token'', callId = None, messageId = Some ''m1'',
         tool = None, content = Some ''Hel'', status = None\<rparr>,
       \<lparr>type = ''tool_call'', callId = Some ''c1'', messageId = Some ''m1'',
         tool = Some ''read_file'', content = None, status = Some ''running''\<rparr>] @
      [\<lparr>type = ''token'', callId = None, messageId = Some ''m1'',
         tool = None, content = Some ''Hello world'', status = None\<rparr>]) =
     [\<lparr>type = ''tool_call'', callId = Some ''c1'', messageId = Some ''m1'',
        tool = Some ''read_file'', content = None, status = Some ''running''\<rparr>,
      \<lparr>type = ''token'', callId = None, messageId = Some ''m1'',
        tool = None, content = Some ''Hello world'', status = None\<rparr>]"
  using token_dedup_by_messageId[of "''m1''"
      "[\<lparr>type = ''token'', callId = None, messageId = Some ''m1'',
          tool = None, content = Some ''Hel'', status = None\<rparr>,
        \<lparr>type = ''tool_call'', callId = Some ''c1'', messageId = Some ''m1'',
          tool = Some ''read_file'', content = None, status = Some ''running''\<rparr>]"
      "\<lparr>type = ''token'', callId = None, messageId = Some ''m1'',
        tool = None, content = Some ''Hello world'', status = None\<rparr>"]
  by (simp add: run_simps)

text \<open>
  Claim C10 as stated, for every message id, fails at the empty message id: two \<open>token\<close>
  events whose \<open>messageId\<close> is the empty string are both kept, since the empty string is
  falsy and the events take the last branch of the loop body.
\<close>

theorem token_dedup_counterexample:
  "dedupedEvents
     [\<lparr>type = ''token'', callId = None, messageId = Some '''', tool = None,
        content = Some ''Hel'', status = None\<rparr>,
      \<lparr>type = ''token'', callId = None, messageId = Some '''', tool = None,
        content = Some ''Hello'', status = None\<rparr>] =
     [\<lparr>type = ''token'', callId = None, messageId = Some '''', tool = None,
        content = Some ''Hel'', status = None\<rparr>,
      \<lparr>type = ''token'', callId = None, messageId = Some '''', tool = None,
        content = Some ''Hello'', status = None\<rparr>] \<and>
   \<not> length (filter (is_token '''')
       (dedupedEvents
         [\<lparr>type = ''token'', callId = None, messageId = Some '''', tool = None,
            content = Some ''Hel'', status = None\<rparr>,
          \<lparr>type = ''token'', callId = None, messageId = Some '''', tool = None,
            content = Some ''Hello'', status = None\<rparr>])) \<le> 1"
  by (simp add: run_simps)

section \<open>Proofs: reasoning effort validation\<close>

text \<open>The valid efforts, as \<open>models.ts\<close> computes them: every valid model accepts exactly
  \<open>high\<close> and \<open>max\<close>, and no effort is valid for a name outside \<open>VALID_MODELS\<close>.\<close>

lemma getReasoningConfig_valid:
  "isValidModel mdl \<Longrightarrow>
   getReasoningConfig mdl = Some \<lparr>efforts = [''high'', ''max''], default_effort = Some ''max''\<rparr>"
  by (auto simp: getReasoningConfig_def isValidModel_def VALID_MODELS_def MODEL_REASONING_CONFIG_def)

lemma isValidReasoningEffort_iff:
  "isValidReasoningEffort mdl eff = (isValidModel mdl \<and> (eff = ''high'' \<or> eff = ''max''))"
proof (cases "isValidModel mdl")
  case True
  then show ?thesis
    by (simp add: isValidReasoningEffort_def getReasoningConfig_valid)
next
  case False
  then show ?thesis
    by (simp add: isValidReasoningEffort_def getReasoningConfig_def)
qed

lemma stored_effort_invalid:
  "\<not> isValidReasoningEffort mdl eff \<Longrightarrow> stored_effort mdl (Some eff) = None"
  by (simp add: stored_effort_def)

text \<open>
  Claim C6.  The validity test is the one of \<open>models.ts\<close>; \<open>init\<close> and \<open>enqueuePrompt\<close> are
  the handlers as the specification describes them.  For every reasoning effort that is
  not valid for the session's model (the requested model, or the default when the request
  names no valid model), \<open>init\<close> succeeds and stores no reasoning effort on the session
  row; \<open>enqueuePrompt\<close> on a session that is not archived succeeds and stores no reasoning
  effort on the message row.  \<open>invalid\<close> and \<open>turbo\<close> are valid for no model, and an
  effort is valid for a model exactly when the model is one of \<open>VALID_MODELS\<close> and the
  effort is \<open>high\<close> or \<open>max\<close>.
\<close>

theorem invalid_reasoning_effort_dropped:
  "(\<not> isValidReasoningEffort (getValidModelOrDefault modelArg) effort \<longrightarrow>
      init modelArg (Some effort) =
        Inr \<lparr>session_status = ''created'', model = getValidModelOrDefault modelArg,
             session_reasoning_effort = None\<rparr>) \<and>
   (\<not> isValidReasoningEffort (model session) effort \<and> session_status session \<noteq> ''archived'' \<longrightarrow>
      enqueuePrompt session promptContent (Some effort) =
        Inr \<lparr>message_content = promptContent, message_status = ''pending'',
             message_reasoning_effort = None\<rparr>) \<and>
   \<not> isValidReasoningEffort anyModel ''invalid'' \<and>
   \<not> isValidReasoningEffort anyModel ''turbo'' \<and>
   isValidReasoningEffort mdl eff =
     (mdl \<in> set VALID_MODELS \<and> (eff = ''high'' \<or> eff = ''max''))"
proof -
  have 1: "\<not> isValidReasoningEffort (getValidModelOrDefault modelArg) effort \<longrightarrow>
      init modelArg (Some effort) =
        Inr \<lparr>session_status = ''created'', model = getValidModelOrDefault modelArg,
             session_reasoning_effort = None\<rparr>"
    by (simp add: init_def Let_def stored_effort_invalid)
  have 2: "\<not> isValidReasoningEffort (model session) effort \<and> session_status session \<noteq> ''archived'' \<longrightarrow>
      enqueuePrompt session promptContent (Some effort) =
        Inr \<lparr>message_content = promptContent, message_status = ''pending'',
             message_reasoning_effort = None\<rparr>"
    by (simp add: enqueuePrompt_def stored_effort_invalid)
  have 3: "\<not> isValidReasoningEffort anyModel ''invalid''"
    by (simp add: isValidReasoningEffort_iff)
  have 4: "\<not> isValidReasoningEffort anyModel ''turbo''"
    by (simp add: isValidReasoningEffort_iff)
  have 5: "isValidReasoningEffort mdl eff =
     (mdl \<in> set VALID_MODELS \<and> (eff = ''high'' \<or> eff = ''max''))"
    by (simp add: isValidReasoningEffort_iff isValidModel_def)
  from 1 2 3 4 5 show ?thesis by blast
qed

text \<open>
  The theorem at work, on the two integration scenarios: a session created for
  \<open>claude-sonnet-4-5\<close> with effort \<open>invalid\<close>, and a prompt with effort \<open>turbo\<close> on a
  session of that model.
\<close>

theorem invalid_reasoning_effort_dropped_witness:
  "\<not> isValidReasoningEffort (getValidModelOrDefault (Some ''claude-sonnet-4-5'')) ''invalid'' \<and>
   init (Some ''claude-sonnet-4-5'') (Some ''invalid'') =
     Inr \<lparr>session_status = ''created'', model = ''claude-sonnet-4-5'',
          session_reasoning_effort = None\<rparr> \<and>
   \<not> isValidReasoningEffort ''claude-sonnet-4-5'' ''turbo'' \<and>
   enqueuePrompt
     \<lparr>session_status = ''created'', model = ''claude-sonnet-4-5'', session_reasoning_effort = None\<rparr>
     ''Test prompt'' (Some ''turbo'') =
     Inr \<lparr>message_content = ''Test prompt'', message_status = ''pending'',
          message_reasoning_effort = None\<rparr>"
  using invalid_reasoning_effort_dropped[of "Some ''claude-sonnet-4-5''" "''invalid''"
      "\<lparr>session_status = ''created'', model = ''claude-sonnet-4-5'', session_reasoning_effort = None\<rparr>"
      "''Test prompt''" "''claude-sonnet-4-5''" "''claude-sonnet-4-5''" "''turbo''"]
    invalid_reasoning_effort_dropped[of "Some ''claude-sonnet-4-5''" "''turbo''"
      "\<lparr>session_status = ''created'', model = ''claude-sonnet-4-5'', session_reasoning_effort = None\<rparr>"
      "''Test prompt''" "''claude-sonnet-4-5''" "''claude-sonnet-4-5''" "''turbo''"]
  by (simp add: getValidModelOrDefault_def isValidModel_def VALID_MODELS_def)

section \<open>Proofs: the token aggregator\<close>

lemma flush_account:
  "flushed_for m (flush a) @ pending_for m (flush a) = flushed_for m a @ pending_for m a"
  by (auto simp: flush_def flushed_for_def pending_for_def split: option.splits)

lemma flush_buffer_empty: "agg_inv a \<Longrightarrow> buffer (flush a) = []"
  by (auto simp: flush_def agg_inv_def split: option.splits)

lemma flush_inv: "agg_inv a \<Longrightarrow> agg_inv (flush a)"
  by (auto simp: flush_def agg_inv_def split: option.splits)

lemma add_inv: "agg_inv a \<Longrightarrow> agg_inv (add t m a)"
  by (auto simp: add_def Let_def agg_inv_def flush_def split: option.splits)

lemma timer_expired_inv: "agg_inv a \<Longrightarrow> agg_inv (timer_expired a)"
  by (simp add: timer_expired_def flush_inv)

lemma timer_expired_account:
  "flushed_for m (timer_expired a) @ pending_for m (timer_expired a) =
   flushed_for m a @ pending_for m a"
  by (simp add: timer_expired_def flush_account)

text \<open>Adding a token of message \<open>m\<close> extends the text of \<open>m\<close> (flushed or still pending)
  by that token and leaves the text of every other message as it is.\<close>

lemma add_account:
  assumes "agg_inv a"
  shows "flushed_for m' (add t m a) @ pending_for m' (add t m a) =
         flushed_for m' a @ pending_for m' a @ (if m = m' then t else [])"
proof -
  define a1 where "a1 = (if currentMessageId a \<noteq> Some m then flush a else a)"
  define a2 where "a2 = a1\<lparr>currentMessageId := Some m, buffer := buffer a1 @ [t]\<rparr>"
  have 1: "flushed_for m' a1 @ pending_for m' a1 = flushed_for m' a @ pending_for m' a"
    by (simp add: a1_def flush_account)
  have 2: "flushed_for m' a2 @ pending_for m' a2 =
        flushed_for m' a1 @ pending_for m' a1 @ (if m = m' then t else [])"
  proof (cases "currentMessageId a = Some m")
    case True
    then have "a1 = a" by (simp add: a1_def)
    with True show ?thesis by (auto simp: a2_def flushed_for_def pending_for_def)
  next
    case False
    then have "buffer a1 = []" by (simp add: a1_def flush_buffer_empty[OF assms])
    then show ?thesis by (simp add: a2_def flushed_for_def pending_for_def)
  qed
  have 3: "add t m a =
      (if length (buffer a2) \<ge> maxBufferSize a2 then flush a2 else a2\<lparr>flushTimer := True\<rparr>)"
    by (simp add: add_def a1_def a2_def Let_def)
  have 4: "flushed_for m' (a2\<lparr>flushTimer := True\<rparr>) @ pending_for m' (a2\<lparr>flushTimer := True\<rparr>) =
      flushed_for m' a2 @ pending_for m' a2"
    by (simp add: flushed_for_def pending_for_def)
  show ?thesis
    by (simp add: 3 flush_account 4 2 1 del: append_assoc)
qed

lemma apply_trigger_inv: "agg_inv a \<Longrightarrow> agg_inv (apply_trigger a t)"
  by (cases t) (simp_all add: add_inv timer_expired_inv flush_inv)

lemma apply_trigger_account:
  assumes "agg_inv a"
  shows "flushed_for m (apply_trigger a t) @ pending_for m (apply_trigger a t) =
         flushed_for m a @ pending_for m a @ added_for m [t]"
  by (cases t) (simp_all add: add_account[OF assms] timer_expired_account flush_account)

lemma added_for_append: "added_for m (ts @ us) = added_for m ts @ added_for m us"
  by (induction m ts rule: added_for.induct) simp_all

lemma run_triggers_inv: "agg_inv a \<Longrightarrow> agg_inv (run_triggers a ts)"
  by (induction ts arbitrary: a) (simp_all add: apply_trigger_inv)

lemma run_triggers_account:
  assumes "agg_inv a"
  shows "flushed_for m (run_triggers a ts) @ pending_for m (run_triggers a ts) =
         flushed_for m a @ pending_for m a @ added_for m ts"
  using assms
proof (induction ts arbitrary: a)
  case Nil
  show ?case by simp
next
  case (Cons t ts)
  have "added_for m (t # ts) = added_for m [t] @ added_for m ts"
    using added_for_append[of m "[t]" ts] by simp
  with Cons.IH[OF apply_trigger_inv[OF Cons.prems]] apply_trigger_account[OF Cons.prems, of m t]
  show ?case by simp
qed

lemma run_triggers_snoc: "run_triggers a (ts @ [t]) = apply_trigger (run_triggers a ts) t"
  by (induction ts arbitrary: a) simp_all

lemma new_aggregator_inv: "agg_inv (new_aggregator n)"
  by (simp add: agg_inv_def new_aggregator_def)

lemma pending_for_drained: "buffer a = [] \<Longrightarrow> pending_for m a = []"
  by (simp add: pending_for_def)

text \<open>
  Claim C2, on the aggregator as the specification describes it.  Start from a new
  aggregator with any size bound and apply any sequence of additions, timer expiries and
  manual flushes (the size bound and a change of message id act inside an addition).
  For every message id, the text handed to the callback for that id so far, followed by
  the text still buffered for it, is the concatenation of the tokens added for that id, in
  arrival order.  So whenever the buffer is empty, and in particular after a final flush,
  the flushed text of the id equals the added text.  A flush of a non-empty buffer hands
  the callback the join of the buffered tokens, once, and empties the buffer.
\<close>

theorem aggregator_concatenation:
  "flushed_for m (run_triggers (new_aggregator n) ts) @
     pending_for m (run_triggers (new_aggregator n) ts) = added_for m ts \<and>
   (buffer (run_triggers (new_aggregator n) ts) = [] \<longrightarrow>
      flushed_for m (run_triggers (new_aggregator n) ts) = added_for m ts) \<and>
   flushed_for m (run_triggers (new_aggregator n) (ts @ [ManualFlush])) = added_for m ts \<and>
   (buffer a \<noteq> [] \<and> currentMessageId a = Some m' \<longrightarrow>
      flushed (flush a) = flushed a @ [(concat (buffer a), m')] \<and> buffer (flush a) = [])"
proof -
  let ?a = "run_triggers (new_aggregator n) ts"
  have acc: "flushed_for m ?a @ pending_for m ?a = added_for m ts"
    using run_triggers_account[OF new_aggregator_inv, of m n ts]
    by (simp add: flushed_for_def pending_for_def new_aggregator_def)
  have drained: "buffer ?a = [] \<longrightarrow> flushed_for m ?a = added_for m ts"
    using acc by (auto simp: pending_for_drained)
  have inv: "agg_inv ?a" by (rule run_triggers_inv[OF new_aggregator_inv])
  have "flushed_for m (flush ?a) @ pending_for m (flush ?a) = added_for m ts"
    using acc by (simp add: flush_account)
  moreover have "pending_for m (flush ?a) = []"
    by (rule pending_for_drained[OF flush_buffer_empty[OF inv]])
  ultimately have final: "flushed_for m (run_triggers (new_aggregator n) (ts @ [ManualFlush])) =
      added_for m ts"
    by (simp add: run_triggers_snoc)
  have join: "buffer a \<noteq> [] \<and> currentMessageId a = Some m' \<longrightarrow>
      flushed (flush a) = flushed a @ [(concat (buffer a), m')] \<and> buffer (flush a) = []"
    by (simp add: flush_def)
  from acc drained final join show ?thesis by blast
qed

lemmas agg_simps = new_aggregator_def add_def flush_def timer_expired_def flushed_for_def
  pending_for_def Let_def

text \<open>
  The theorem at work, on the scenario of the unit test "flushes when message ID changes"
  (size bound 100): two tokens of \<open>msg-1\<close>, one of \<open>msg-2\<close>, then the timer.  The buffer is
  empty at the end and the callback has received \<open>Hello World\<close> for \<open>msg-1\<close> and \<open>New\<close>
  for \<open>msg-2\<close>.
\<close>

theorem aggregator_concatenation_witness:
  "buffer (run_triggers (new_aggregator 100)
      [Add ''Hello'' ''msg-1'', Add '' World'' ''msg-1'', Add ''New'' ''msg-2'', TimerExpired]) = [] \<and>
   flushed (run_triggers (new_aggregator 100)
      [Add ''Hello'' ''msg-1'', Add '' World'' ''msg-1'', Add ''New'' ''msg-2'', TimerExpired]) =
     [(''Hello World'', ''msg-1''), (''New'', ''msg-2'')] \<and>
   flushed_for ''msg-1'' (run_triggers (new_aggregator 100)
      [Add ''Hello'' ''msg-1'', Add '' World'' ''msg-1'', Add ''New'' ''msg-2'', TimerExpired]) =
     added_for ''msg-1''
      [Add ''Hello'' ''msg-1'', Add '' World'' ''msg-1'', Add ''New'' ''msg-2'', TimerExpired] \<and>
   added_for ''msg-1''
      [Add ''Hello'' ''msg-1'', Add '' World'' ''msg-1'', Add ''New'' ''msg-2'', TimerExpired] =
     ''Hello World''"
  using aggregator_concatenation[of "''msg-1''" 100
      "[Add ''Hello'' ''msg-1'', Add '' World'' ''msg-1'', Add ''New'' ''msg-2'', TimerExpired]"]
  by (simp add: agg_simps)

end
